theory Spec2Isabelle
  imports Main "HOL-Library.Multiset"
begin

section \<open>The priority queue of main.go\<close>

text \<open>
  The Go structs \<^verbatim>\<open>Task\<close> and \<^verbatim>\<open>Queue\<close> (main.go, lines 11-22). A Go string is a byte
  sequence, here a \<open>string\<close>; a slice is a list. Every method of \<^verbatim>\<open>Queue\<close> locks
  \<^verbatim>\<open>q.mu\<close> on entry and unlocks it on return, so in a sequential run the mutex is free
  before and after every call; the sequential model leaves the field out.
\<close>

record Task =
  Body :: string
  Priority :: string

record Queue =
  High :: "Task list"
  Medium :: "Task list"
  Low :: "Task list"

text \<open>\<^verbatim>\<open>&Queue{}\<close> (line 81): the zero value, three nil slices of length 0.\<close>

definition emptyQueue :: Queue where
  "emptyQueue = \<lparr>High = [], Medium = [], Low = []\<rparr>"

text \<open>\<^verbatim>\<open>Queue.Push\<close> (lines 25-38): the switch on \<^verbatim>\<open>task.Priority\<close>, in its order.\<close>

definition Push :: "Queue \<Rightarrow> Task \<Rightarrow> Queue" where
  "Push q task =
     (if Priority task = ''high'' then q\<lparr>High := High q @ [task]\<rparr>
      else if Priority task = ''medium'' then q\<lparr>Medium := Medium q @ [task]\<rparr>
      else q\<lparr>Low := Low q @ [task]\<rparr>)"

text \<open>
  \<^verbatim>\<open>Queue.Pop\<close> (lines 41-61). The result \<^verbatim>\<open>*Task\<close> is \<open>None\<close> for \<^verbatim>\<open>nil\<close>; the pointer is
  to a copy of the element, so the model returns the task itself. \<^verbatim>\<open>q.High[0]\<close> and
  \<^verbatim>\<open>q.High[1:]\<close> are only reached under \<^verbatim>\<open>len(q.High) > 0\<close>.
\<close>

definition Pop :: "Queue \<Rightarrow> Task option \<times> Queue" where
  "Pop q =
     (if length (High q) > 0 then (Some (High q ! 0), q\<lparr>High := drop 1 (High q)\<rparr>)
      else if length (Medium q) > 0 then (Some (Medium q ! 0), q\<lparr>Medium := drop 1 (Medium q)\<rparr>)
      else if length (Low q) > 0 then (Some (Low q ! 0), q\<lparr>Low := drop 1 (Low q)\<rparr>)
      else (None, q))"

subsection \<open>Sequences of calls on one queue\<close>

datatype op = OpPush Task | OpPop

text \<open>The queue after a sequence of calls, made one after the other.\<close>

fun final :: "Queue \<Rightarrow> op list \<Rightarrow> Queue" where
  "final q [] = q"
| "final q (OpPush t # ops) = final (Push q t) ops"
| "final q (OpPop # ops) = final (snd (Pop q)) ops"

text \<open>The tasks the pops of the sequence return, in the order of the pops.\<close>

fun popped :: "Queue \<Rightarrow> op list \<Rightarrow> Task list" where
  "popped q [] = []"
| "popped q (OpPush t # ops) = popped (Push q t) ops"
| "popped q (OpPop # ops) =
     (case fst (Pop q) of
        None \<Rightarrow> popped (snd (Pop q)) ops
      | Some t \<Rightarrow> t # popped (snd (Pop q)) ops)"

text \<open>The tasks the sequence pushes, in the order of the pushes.\<close>

fun pushed :: "op list \<Rightarrow> Task list" where
  "pushed [] = []"
| "pushed (OpPush t # ops) = t # pushed ops"
| "pushed (OpPop # ops) = pushed ops"

text \<open>All pending tasks in the order pops will return them, and their number.\<close>

definition pending :: "Queue \<Rightarrow> Task list" where
  "pending q = High q @ Medium q @ Low q"

definition total :: "Queue \<Rightarrow> nat" where
  "total q = length (High q) + length (Medium q) + length (Low q)"

text \<open>
  The tier a task lands in: the case of the switch of \<^verbatim>\<open>Push\<close> that its priority string
  selects.
\<close>

datatype tier = HighTier | MediumTier | LowTier

definition tier_of :: "Task \<Rightarrow> tier" where
  "tier_of task =
     (if Priority task = ''high'' then HighTier
      else if Priority task = ''medium'' then MediumTier
      else LowTier)"

fun tier_seq :: "tier \<Rightarrow> Queue \<Rightarrow> Task list" where
  "tier_seq HighTier q = High q"
| "tier_seq MediumTier q = Medium q"
| "tier_seq LowTier q = Low q"

text \<open>Every task sits in the tier its priority string selects.\<close>

definition tier_inv :: "Queue \<Rightarrow> bool" where
  "tier_inv q \<longleftrightarrow>
     list_all (\<lambda>t. tier_of t = HighTier) (High q) \<and>
     list_all (\<lambda>t. tier_of t = MediumTier) (Medium q) \<and>
     list_all (\<lambda>t. tier_of t = LowTier) (Low q)"

text \<open>Popping \<open>n\<close> times in a row.\<close>

fun pop_times :: "nat \<Rightarrow> Queue \<Rightarrow> Queue" where
  "pop_times 0 q = q"
| "pop_times (Suc n) q = pop_times n (snd (Pop q))"

section \<open>The queue manager\<close>

text \<open>
  \<^verbatim>\<open>QueueManager\<close> (lines 64-67) maps a name to a pointer to a queue. Pointers are
  addresses into a heap of queue objects, so that two names holding the same instance and
  two names holding equal but separate instances differ. The heap only grows: Go has no
  way to free a queue that the map still holds. The process state is the global
  \<^verbatim>\<open>manager\<close> (line 86) and the heap. A \<^verbatim>\<open>*Queue\<close> is an \<open>addr option\<close>, \<open>None\<close> for
  \<^verbatim>\<open>nil\<close>. The only write to the map (line 81) stores a fresh non-nil pointer, so a key
  that is present never holds \<^verbatim>\<open>nil\<close>.
\<close>

type_synonym addr = nat

record QueueManager =
  Queues :: "string \<rightharpoonup> addr"

record state =
  manager :: QueueManager
  heap :: "Queue list"

definition NewQueueManager :: QueueManager where
  "NewQueueManager = \<lparr>Queues = Map.empty\<rparr>"

definition init :: state where
  "init = \<lparr>manager = NewQueueManager, heap = []\<rparr>"

text \<open>
  \<^verbatim>\<open>QueueManager.GetQueue\<close> (lines 76-84) between its \<^verbatim>\<open>Lock\<close> and its deferred
  \<^verbatim>\<open>Unlock\<close>: when the key is missing, allocate \<^verbatim>\<open>&Queue{}\<close> at a fresh address and store
  it; then return the map's entry (a missing key would read as \<^verbatim>\<open>nil\<close>).
\<close>

definition GetQueue :: "state \<Rightarrow> string \<Rightarrow> addr option \<times> state" where
  "GetQueue s queueName =
     (let s' =
        (if Queues (manager s) queueName = None
         then s\<lparr>manager := (manager s)\<lparr>Queues := (Queues (manager s))(queueName \<mapsto> length (heap s))\<rparr>,
                heap := heap s @ [emptyQueue]\<rparr>
         else s)
      in (Queues (manager s') queueName, s'))"

text \<open>
  A method call through a pointer. Calling \<^verbatim>\<open>Push\<close> or \<^verbatim>\<open>Pop\<close> on \<^verbatim>\<open>nil\<close> panics at
  \<^verbatim>\<open>q.mu.Lock()\<close>; an address that was never allocated cannot occur in Go, and is a fault
  of the model's own.
\<close>

datatype panic = NilPointer | Unallocated

definition Push_at :: "state \<Rightarrow> addr option \<Rightarrow> Task \<Rightarrow> panic + state" where
  "Push_at s p task =
     (case p of
        None \<Rightarrow> Inl NilPointer
      | Some a \<Rightarrow>
          if a < length (heap s) then Inr (s\<lparr>heap := (heap s)[a := Push (heap s ! a) task]\<rparr>)
          else Inl Unallocated)"

definition Pop_at :: "state \<Rightarrow> addr option \<Rightarrow> panic + (Task option \<times> state)" where
  "Pop_at s p =
     (case p of
        None \<Rightarrow> Inl NilPointer
      | Some a \<Rightarrow>
          if a < length (heap s)
          then Inr (fst (Pop (heap s ! a)), s\<lparr>heap := (heap s)[a := snd (Pop (heap s ! a))]\<rparr>)
          else Inl Unallocated)"

subsection \<open>The HTTP handlers\<close>

text \<open>
  What a handler writes: \<^verbatim>\<open>http.Error\<close> with its message and status code, the text of
  \<^verbatim>\<open>Fprintf\<close> after \<^verbatim>\<open>WriteHeader\<close>, the task handed to the JSON encoder (status 200), or
  a panic of the handler.
\<close>

datatype Response =
    HttpError string nat
  | Written nat string
  | Encoded Task
  | Panicked panic

text \<open>
  The task \<^verbatim>\<open>pushTaskHandler\<close> hands to \<^verbatim>\<open>Push\<close> (lines 104-107): an empty priority is
  replaced by \<^verbatim>\<open>"low"\<close>, any other string is kept.
\<close>

definition defaulted :: "Task \<Rightarrow> Task" where
  "defaulted task = (if Priority task = [] then task\<lparr>Priority := ''low''\<rparr> else task)"

text \<open>
  \<^verbatim>\<open>pushTaskHandler\<close> (lines 89-115). The request is given by the result of decoding its
  body (\<open>None\<close> when \<^verbatim>\<open>Decode\<close> returns an error; a field absent from the JSON object keeps
  Go's zero value, the empty string) and by the value of the query parameter
  \<^verbatim>\<open>queue\<close> (the empty string when it is absent).
\<close>

definition pushTaskHandler :: "state \<Rightarrow> Task option \<Rightarrow> string \<Rightarrow> Response \<times> state" where
  "pushTaskHandler s decoded queueName =
     (case decoded of
        None \<Rightarrow> (HttpError ''Invalid request body'' 400, s)
      | Some task0 \<Rightarrow>
          if queueName = [] then (HttpError ''Queue query param required'' 400, s)
          else
            let task = defaulted task0;
                (queue, s1) = GetQueue s queueName
            in (case Push_at s1 queue task of
                  Inl e \<Rightarrow> (Panicked e, s1)
                | Inr s2 \<Rightarrow>
                    (Written 200
                       (''Task added to queue '' @ [CHR 0x27] @ queueName @ [CHR 0x27] @
                        '' with priority: '' @ Priority task @ [CHR 0x0A]),
                     s2)))"

text \<open>\<^verbatim>\<open>popTaskHandler\<close> (lines 118-134).\<close>

definition popTaskHandler :: "state \<Rightarrow> string \<Rightarrow> Response \<times> state" where
  "popTaskHandler s queueName =
     (if queueName = [] then (HttpError ''Queue query param required'' 400, s)
      else
        let (queue, s1) = GetQueue s queueName
        in (case Pop_at s1 queue of
              Inl e \<Rightarrow> (Panicked e, s1)
            | Inr (None, s2) \<Rightarrow> (HttpError ''No tasks available in queue'' 404, s2)
            | Inr (Some task, s2) \<Rightarrow> (Encoded task, s2)))"

text \<open>The requests the two routes of \<^verbatim>\<open>main\<close> (lines 138-139) accept, served in turn.\<close>

datatype Request = PushRequest "Task option" string | PopRequest string

fun serve :: "state \<Rightarrow> Request \<Rightarrow> Response \<times> state" where
  "serve s (PushRequest decoded queueName) = pushTaskHandler s decoded queueName"
| "serve s (PopRequest queueName) = popTaskHandler s queueName"

fun queue_name :: "Request \<Rightarrow> string" where
  "queue_name (PushRequest decoded queueName) = queueName"
| "queue_name (PopRequest queueName) = queueName"

fun serve_all :: "state \<Rightarrow> Request list \<Rightarrow> state" where
  "serve_all s [] = s"
| "serve_all s (r # rs) = serve_all (snd (serve s r)) rs"

text \<open>The queue a name stands for, when the name has been resolved.\<close>

definition queue_at :: "state \<Rightarrow> string \<Rightarrow> Queue option" where
  "queue_at s name =
     (case Queues (manager s) name of
        None \<Rightarrow> None
      | Some a \<Rightarrow> if a < length (heap s) then Some (heap s ! a) else None)"

text \<open>The queue a resolve of the name gives: the one stored, or else a new empty one.\<close>

definition resolved :: "state \<Rightarrow> string \<Rightarrow> Queue" where
  "resolved s name = (case queue_at s name of None \<Rightarrow> emptyQueue | Some q \<Rightarrow> q)"

text \<open>
  What a run of requests means for the queue of one name: the pushes and pops that the
  handlers make on it, in order (a request that is rejected, or is for another name,
  makes none), and the tasks that the pop requests for that name send back, in order.
\<close>

fun ops_of :: "string \<Rightarrow> Request list \<Rightarrow> op list" where
  "ops_of name [] = []"
| "ops_of name (PushRequest None n # rs) = ops_of name rs"
| "ops_of name (PushRequest (Some t) n # rs) =
     (if n = name \<and> n \<noteq> [] then OpPush (defaulted t) # ops_of name rs else ops_of name rs)"
| "ops_of name (PopRequest n # rs) =
     (if n = name \<and> n \<noteq> [] then OpPop # ops_of name rs else ops_of name rs)"

fun encoded_for :: "string \<Rightarrow> state \<Rightarrow> Request list \<Rightarrow> Task list" where
  "encoded_for name s [] = []"
| "encoded_for name s (r # rs) =
     (case fst (serve s r) of
        Encoded t \<Rightarrow> if queue_name r = name then [t] else []
      | _ \<Rightarrow> []) @ encoded_for name (snd (serve s r)) rs"

text \<open>Resolving a name \<open>k\<close> times in a row.\<close>

fun resolve_times :: "nat \<Rightarrow> string \<Rightarrow> state \<Rightarrow> state" where
  "resolve_times 0 name s = s"
| "resolve_times (Suc k) name s = resolve_times k name (snd (GetQueue s name))"

text \<open>
  The invariant of the process state: every stored pointer is allocated, and no two names
  hold the same pointer.
\<close>

definition wf :: "state \<Rightarrow> bool" where
  "wf s \<longleftrightarrow>
     (\<forall>n a. Queues (manager s) n = Some a \<longrightarrow> a < length (heap s)) \<and>
     (\<forall>n m a. Queues (manager s) n = Some a \<and> Queues (manager s) m = Some a \<longrightarrow> n = m)"

subsection \<open>The lock of the manager\<close>

text \<open>
  \<^verbatim>\<open>qm.mu\<close> is a \<^verbatim>\<open>sync.RWMutex\<close>: free, held by one writer, or held by readers.
  \<^verbatim>\<open>GetQueue\<close> calls \<^verbatim>\<open>Lock\<close> (line 77) and, deferred, \<^verbatim>\<open>Unlock\<close> (line 78); the source
  calls neither \<^verbatim>\<open>RLock\<close> nor \<^verbatim>\<open>RUnlock\<close>. \<open>None\<close> is a call that cannot go on: \<^verbatim>\<open>Lock\<close>
  waits until the mutex is free.
\<close>

datatype RWMutex = Unlocked | WriteLocked | ReadLocked nat

definition Lock :: "RWMutex \<Rightarrow> RWMutex option" where
  "Lock m = (if m = Unlocked then Some WriteLocked else None)"

definition Unlock :: "RWMutex \<Rightarrow> RWMutex option" where
  "Unlock m = (if m = WriteLocked then Some Unlocked else None)"

text \<open>
  One goroutine's call of \<^verbatim>\<open>GetQueue\<close>: about to lock (line 77), holding the lock with
  lines 80-83 and the deferred unlock ahead, or returned with its result.
\<close>

datatype call = Entering string | Holding string | Returned "addr option"

record system =
  mu :: RWMutex
  shared :: state
  calls :: "call list"

text \<open>Goroutine \<open>i\<close> takes its next step; \<open>None\<close> when it is blocked or has returned.\<close>

definition step :: "nat \<Rightarrow> system \<Rightarrow> system option" where
  "step i sys =
     (if i < length (calls sys) then
        (case calls sys ! i of
           Entering name \<Rightarrow>
             (case Lock (mu sys) of
                None \<Rightarrow> None
              | Some m \<Rightarrow> Some (sys\<lparr>mu := m, calls := (calls sys)[i := Holding name]\<rparr>))
         | Holding name \<Rightarrow>
             (case Unlock (mu sys) of
                None \<Rightarrow> None
              | Some m \<Rightarrow>
                  Some (sys\<lparr>mu := m, shared := snd (GetQueue (shared sys) name),
                            calls := (calls sys)[i := Returned (fst (GetQueue (shared sys) name))]\<rparr>))
         | Returned p \<Rightarrow> None)
      else None)"

text \<open>A schedule names the goroutine that steps next; it fails where that one cannot.\<close>

fun steps :: "nat list \<Rightarrow> system \<Rightarrow> system option" where
  "steps [] sys = Some sys"
| "steps (i # sched) sys = (case step i sys of None \<Rightarrow> None | Some sys' \<Rightarrow> steps sched sys')"

fun is_Holding :: "call \<Rightarrow> bool" where
  "is_Holding (Holding name) = True"
| "is_Holding c = False"

fun is_Entering :: "call \<Rightarrow> bool" where
  "is_Entering (Entering name) = True"
| "is_Entering c = False"

definition holders :: "system \<Rightarrow> nat" where
  "holders sys = length (filter is_Holding (calls sys))"

section \<open>Properties of one queue\<close>

lemma nth0_drop1: "xs \<noteq> [] \<Longrightarrow> xs ! 0 # drop 1 xs = xs"
  by (cases xs) simp_all

lemma Pop_High: "High q \<noteq> [] \<Longrightarrow> Pop q = (Some (hd (High q)), q\<lparr>High := tl (High q)\<rparr>)"
  by (cases "High q") (simp_all add: Pop_def)

lemma Pop_Medium:
  "High q = [] \<Longrightarrow> Medium q \<noteq> [] \<Longrightarrow> Pop q = (Some (hd (Medium q)), q\<lparr>Medium := tl (Medium q)\<rparr>)"
  by (cases "Medium q") (simp_all add: Pop_def)

lemma Pop_Low:
  "High q = [] \<Longrightarrow> Medium q = [] \<Longrightarrow> Low q \<noteq> [] \<Longrightarrow>
   Pop q = (Some (hd (Low q)), q\<lparr>Low := tl (Low q)\<rparr>)"
  by (cases "Low q") (simp_all add: Pop_def)

lemma Pop_empty: "High q = [] \<Longrightarrow> Medium q = [] \<Longrightarrow> Low q = [] \<Longrightarrow> Pop q = (None, q)"
  by (simp add: Pop_def)

lemma Pop_None_iff: "fst (Pop q) = None \<longleftrightarrow> High q = [] \<and> Medium q = [] \<and> Low q = []"
  by (simp add: Pop_def)

text \<open>
  C1. In every queue state, so in every state that pushes (of any priority string) and
  pops can reach, a pop removes and returns the first element of the first non-empty tier
  in the order high, medium, low, the rest of that tier keeping its order and the other
  tiers untouched; the result is empty exactly when the three tiers are empty.
\<close>

theorem Pop_first_nonempty_tier:
  "(High q \<noteq> [] \<longrightarrow> Pop q = (Some (hd (High q)), q\<lparr>High := tl (High q)\<rparr>)) \<and>
   (High q = [] \<and> Medium q \<noteq> [] \<longrightarrow>
      Pop q = (Some (hd (Medium q)), q\<lparr>Medium := tl (Medium q)\<rparr>)) \<and>
   (High q = [] \<and> Medium q = [] \<and> Low q \<noteq> [] \<longrightarrow>
      Pop q = (Some (hd (Low q)), q\<lparr>Low := tl (Low q)\<rparr>)) \<and>
   (fst (Pop q) = None \<longleftrightarrow> High q = [] \<and> Medium q = [] \<and> Low q = [])"
  using Pop_High [of q] Pop_Medium [of q] Pop_Low [of q] Pop_None_iff [of q] by blast

theorem Pop_first_nonempty_tier_witness:
  "Pop (final emptyQueue
          [OpPush \<lparr>Body = ''a'', Priority = ''high''\<rparr>, OpPush \<lparr>Body = ''b'', Priority = ''low''\<rparr>,
           OpPush \<lparr>Body = ''c'', Priority = ''high''\<rparr>]) =
     (Some \<lparr>Body = ''a'', Priority = ''high''\<rparr>,
      \<lparr>High = [\<lparr>Body = ''c'', Priority = ''high''\<rparr>], Medium = [],
       Low = [\<lparr>Body = ''b'', Priority = ''low''\<rparr>]\<rparr>) \<and>
   Pop (final emptyQueue
          [OpPush \<lparr>Body = ''b'', Priority = ''urgent''\<rparr>, OpPush \<lparr>Body = ''m'', Priority = ''medium''\<rparr>]) =
     (Some \<lparr>Body = ''m'', Priority = ''medium''\<rparr>,
      \<lparr>High = [], Medium = [], Low = [\<lparr>Body = ''b'', Priority = ''urgent''\<rparr>]\<rparr>) \<and>
   Pop (final emptyQueue
          [OpPush \<lparr>Body = ''a'', Priority = ''high''\<rparr>, OpPush \<lparr>Body = ''b'', Priority = []\<rparr>, OpPop]) =
     (Some \<lparr>Body = ''b'', Priority = []\<rparr>, \<lparr>High = [], Medium = [], Low = []\<rparr>) \<and>
   fst (Pop (final emptyQueue [OpPush \<lparr>Body = ''a'', Priority = ''high''\<rparr>, OpPop])) = None"
  using
    Pop_first_nonempty_tier [of "final emptyQueue
          [OpPush \<lparr>Body = ''a'', Priority = ''high''\<rparr>, OpPush \<lparr>Body = ''b'', Priority = ''low''\<rparr>,
           OpPush \<lparr>Body = ''c'', Priority = ''high''\<rparr>]"]
    Pop_first_nonempty_tier [of "final emptyQueue
          [OpPush \<lparr>Body = ''b'', Priority = ''urgent''\<rparr>, OpPush \<lparr>Body = ''m'', Priority = ''medium''\<rparr>]"]
    Pop_first_nonempty_tier [of "final emptyQueue
          [OpPush \<lparr>Body = ''a'', Priority = ''high''\<rparr>, OpPush \<lparr>Body = ''b'', Priority = []\<rparr>, OpPop]"]
    Pop_first_nonempty_tier [of "final emptyQueue [OpPush \<lparr>Body = ''a'', Priority = ''high''\<rparr>, OpPop]"]
  by (simp add: Push_def Pop_def emptyQueue_def)


lemma tier_seq_Push:
  "tier_seq X (Push q t) = (if tier_of t = X then tier_seq X q @ [t] else tier_seq X q)"
  by (cases X) (simp_all add: Push_def tier_of_def)

lemma tier_inv_empty: "tier_inv emptyQueue"
  by (simp add: tier_inv_def emptyQueue_def)

lemma tier_inv_Push: "tier_inv q \<Longrightarrow> tier_inv (Push q t)"
  by (simp add: tier_inv_def Push_def tier_of_def)

lemma list_all_tl: "list_all P xs \<Longrightarrow> list_all P (tl xs)"
  by (cases xs) simp_all

lemma tier_inv_Pop: "tier_inv q \<Longrightarrow> tier_inv (snd (Pop q))"
  by (simp add: tier_inv_def Pop_def drop_Suc list_all_tl)

lemma Pop_None_unchanged: "fst (Pop q) = None \<Longrightarrow> snd (Pop q) = q"
  by (simp add: Pop_def split: if_splits)

lemma tier_seq_Pop_Some:
  assumes "tier_inv q" and "fst (Pop q) = Some t"
  shows "tier_seq X q = (if tier_of t = X then t # tier_seq X (snd (Pop q)) else tier_seq X (snd (Pop q)))"
proof -
  consider (h) "High q \<noteq> []" | (m) "High q = []" "Medium q \<noteq> []"
    | (l) "High q = []" "Medium q = []" "Low q \<noteq> []" | (e) "High q = []" "Medium q = []" "Low q = []"
    by blast
  then show ?thesis
  proof cases
    case h
    then obtain x xs where "High q = x # xs" by (cases "High q") auto
    with assms show ?thesis by (cases X) (auto simp: Pop_def tier_inv_def)
  next
    case m
    then obtain x xs where "Medium q = x # xs" by (cases "Medium q") auto
    with m assms show ?thesis by (cases X) (auto simp: Pop_def tier_inv_def)
  next
    case l
    then obtain x xs where "Low q = x # xs" by (cases "Low q") auto
    with l assms show ?thesis by (cases X) (auto simp: Pop_def tier_inv_def)
  next
    case e
    with assms show ?thesis by (simp add: Pop_def)
  qed
qed

lemma fifo_from:
  "tier_inv q \<Longrightarrow>
   tier_seq X q @ filter (\<lambda>t. tier_of t = X) (pushed ops) =
   filter (\<lambda>t. tier_of t = X) (popped q ops) @ tier_seq X (final q ops)"
proof (induction q ops rule: final.induct)
  case (1 q)
  then show ?case by simp
next
  case (2 q t ops)
  then show ?case by (auto simp: tier_inv_Push tier_seq_Push split: if_splits)
next
  case (3 q ops)
  show ?case
  proof (cases "fst (Pop q)")
    case None
    with 3 show ?thesis by (simp add: Pop_None_unchanged)
  next
    case (Some t)
    with 3 tier_seq_Pop_Some [OF "3.prems" Some, of X] show ?thesis
      by (auto simp: tier_inv_Pop split: if_splits)
  qed
qed

text \<open>
  C2. Strict FIFO within a tier. Run any sequence of pushes and pops on a new queue. For
  each tier, the tasks that were pushed into it, in push order, are exactly the tasks the
  pops returned from it, in pop order, followed by the tasks still waiting in it: so the
  pops return the tasks of a tier in the order of their pushes, with none skipped,
  whatever pushes and pops to this or the other tiers happen in between. Of two tasks A
  and B of one tier, A pushed first, B is never returned before A.
\<close>

theorem fifo_within_tier:
  "filter (\<lambda>t. tier_of t = X) (pushed ops) =
   filter (\<lambda>t. tier_of t = X) (popped emptyQueue ops) @ tier_seq X (final emptyQueue ops)"
proof -
  have "tier_seq X emptyQueue = []" by (cases X) (simp_all add: emptyQueue_def)
  with fifo_from [OF tier_inv_empty, of X ops] show ?thesis by simp
qed


theorem fifo_within_tier_witness:
  "filter (\<lambda>t. tier_of t = HighTier)
     (popped emptyQueue
        [OpPush \<lparr>Body = ''A'', Priority = ''high''\<rparr>, OpPush \<lparr>Body = ''x'', Priority = ''low''\<rparr>,
         OpPush \<lparr>Body = ''B'', Priority = ''high''\<rparr>, OpPop, OpPop, OpPop]) =
   [\<lparr>Body = ''A'', Priority = ''high''\<rparr>, \<lparr>Body = ''B'', Priority = ''high''\<rparr>]"
  using fifo_within_tier [of HighTier
        "[OpPush \<lparr>Body = ''A'', Priority = ''high''\<rparr>, OpPush \<lparr>Body = ''x'', Priority = ''low''\<rparr>,
         OpPush \<lparr>Body = ''B'', Priority = ''high''\<rparr>, OpPop, OpPop, OpPop]"]
  by (simp add: Push_def Pop_def emptyQueue_def tier_of_def)

lemma pop_times_empty:
  "High q = [] \<Longrightarrow> Medium q = [] \<Longrightarrow> Low q = [] \<Longrightarrow> pop_times n q = q"
  by (induction n) (simp_all add: Pop_empty)

text \<open>
  C5. On a queue whose three tiers are empty (new, or drained) a pop returns the empty
  result \<open>None\<close>, a value and not a failure, and leaves the queue as it was; popping any
  number of times changes nothing, and the next pop is empty again.
\<close>

theorem Pop_empty_idempotent:
  assumes "High q = []" and "Medium q = []" and "Low q = []"
  shows "Pop q = (None, q) \<and> pop_times n q = q \<and> Pop (pop_times n q) = (None, q)"
  using assms by (simp add: Pop_empty pop_times_empty)

theorem Pop_empty_idempotent_witness:
  "Pop emptyQueue = (None, emptyQueue) \<and> pop_times 5 emptyQueue = emptyQueue \<and>
   Pop (pop_times 5 emptyQueue) = (None, emptyQueue) \<and>
   final emptyQueue [OpPush \<lparr>Body = ''a'', Priority = ''high''\<rparr>, OpPop] = emptyQueue"
  using Pop_empty_idempotent [of emptyQueue 5]
  by (simp add: emptyQueue_def Push_def Pop_def)

text \<open>
  C6. A push appends the task to the one tier its priority string selects (high,
  medium, and low for every other string) and leaves the other two tiers as they were:
  exactly one tier changes. \<open>Push\<close> is a total function that returns the queue only: it
  has no result and no failure.
\<close>

theorem Push_one_tier:
  "(Priority t = ''high'' \<longrightarrow>
      High (Push q t) = High q @ [t] \<and> Medium (Push q t) = Medium q \<and> Low (Push q t) = Low q) \<and>
   (Priority t = ''medium'' \<longrightarrow>
      High (Push q t) = High q \<and> Medium (Push q t) = Medium q @ [t] \<and> Low (Push q t) = Low q) \<and>
   (Priority t \<noteq> ''high'' \<and> Priority t \<noteq> ''medium'' \<longrightarrow>
      High (Push q t) = High q \<and> Medium (Push q t) = Medium q \<and> Low (Push q t) = Low q @ [t]) \<and>
   (\<exists>!X. tier_seq X (Push q t) \<noteq> tier_seq X q)"
proof -
  have "\<exists>!X. tier_seq X (Push q t) \<noteq> tier_seq X q"
  proof (rule ex1I [of _ "tier_of t"])
    show "tier_seq (tier_of t) (Push q t) \<noteq> tier_seq (tier_of t) q"
      by (simp add: tier_seq_Push)
  next
    fix X assume "tier_seq X (Push q t) \<noteq> tier_seq X q"
    then show "X = tier_of t" by (auto simp: tier_seq_Push split: if_splits)
  qed
  then show ?thesis by (simp add: Push_def)
qed

theorem Push_one_tier_witness:
  "High (Push emptyQueue \<lparr>Body = ''a'', Priority = ''high''\<rparr>) = [\<lparr>Body = ''a'', Priority = ''high''\<rparr>] \<and>
   Medium (Push emptyQueue \<lparr>Body = ''a'', Priority = ''high''\<rparr>) = [] \<and>
   Low (Push emptyQueue \<lparr>Body = ''a'', Priority = ''high''\<rparr>) = [] \<and>
   Medium (Push emptyQueue \<lparr>Body = ''m'', Priority = ''medium''\<rparr>) = [\<lparr>Body = ''m'', Priority = ''medium''\<rparr>] \<and>
   High (Push emptyQueue \<lparr>Body = ''m'', Priority = ''medium''\<rparr>) = [] \<and>
   Low (Push emptyQueue \<lparr>Body = ''u'', Priority = ''urgent''\<rparr>) = [\<lparr>Body = ''u'', Priority = ''urgent''\<rparr>] \<and>
   High (Push emptyQueue \<lparr>Body = ''u'', Priority = ''urgent''\<rparr>) = [] \<and>
   Medium (Push emptyQueue \<lparr>Body = ''u'', Priority = ''urgent''\<rparr>) = []"
  using Push_one_tier [of "\<lparr>Body = ''a'', Priority = ''high''\<rparr>" emptyQueue]
    Push_one_tier [of "\<lparr>Body = ''m'', Priority = ''medium''\<rparr>" emptyQueue]
    Push_one_tier [of "\<lparr>Body = ''u'', Priority = ''urgent''\<rparr>" emptyQueue]
  by (simp add: emptyQueue_def)

lemma pending_Push: "mset (pending (Push q t)) = add_mset t (mset (pending q))"
  by (simp add: pending_def Push_def)

lemma pending_Pop_Some: "fst (Pop q) = Some t \<Longrightarrow> pending q = t # pending (snd (Pop q))"
  by (auto simp: pending_def Pop_def drop_Suc nth0_drop1 split: if_splits)
    (metis list.collapse hd_conv_nth)+

lemma conservation:
  "mset (pending q) + mset (pushed ops) = mset (popped q ops) + mset (pending (final q ops))"
proof (induction q ops rule: final.induct)
  case (1 q)
  then show ?case by simp
next
  case (2 q t ops)
  then show ?case by (simp add: pending_Push)
next
  case (3 q ops)
  show ?case
  proof (cases "fst (Pop q)")
    case None
    with 3 show ?thesis by (simp add: Pop_None_unchanged)
  next
    case (Some t)
    with 3 pending_Pop_Some [OF Some] show ?thesis by simp
  qed
qed

lemma pending_empty: "pending emptyQueue = []"
  by (simp add: pending_def emptyQueue_def)

text \<open>
  C9. A pop returns the very task that was pushed, body and priority string unchanged:
  pushing any task on a new queue and popping gives that task back, also when its
  priority string is not one of the three known (it waited in the low tier and still
  carries its own string); and in any sequence of pushes and pops on a new queue the
  tasks returned are, with multiplicity, among the tasks pushed.
\<close>

theorem Pop_returns_pushed_task:
  "Pop (Push emptyQueue t) = (Some t, emptyQueue) \<and>
   mset (popped emptyQueue ops) \<subseteq># mset (pushed ops)"
proof -
  have "Pop (Push emptyQueue t) = (Some t, emptyQueue)"
    by (simp add: Push_def Pop_def emptyQueue_def)
  moreover have "mset (popped emptyQueue ops) \<subseteq># mset (pushed ops)"
    using conservation [of emptyQueue ops] by (simp add: pending_empty)
  ultimately show ?thesis by simp
qed

theorem Pop_returns_pushed_task_witness:
  "Pop (Push emptyQueue \<lparr>Body = ''x'', Priority = ''urgent''\<rparr>) =
     (Some \<lparr>Body = ''x'', Priority = ''urgent''\<rparr>, emptyQueue) \<and>
   Low (Push emptyQueue \<lparr>Body = ''x'', Priority = ''urgent''\<rparr>) = [\<lparr>Body = ''x'', Priority = ''urgent''\<rparr>]"
  using Pop_returns_pushed_task [of "\<lparr>Body = ''x'', Priority = ''urgent''\<rparr>" "[]"]
  by (simp add: Push_def emptyQueue_def)

text \<open>
  C10. The number of pending tasks grows by one with every push and shrinks by one with
  every pop that returns a task, the task returned being the one removed (the front of
  the pending tasks); an empty pop changes nothing. Over any sequence of pushes and pops
  on a new queue, the tasks pushed are, with multiplicity, the tasks popped together with
  the tasks still pending: none is lost and none is duplicated.
\<close>

theorem total_conservation:
  "total (Push q t) = total q + 1 \<and>
   (fst (Pop q) = Some t \<longrightarrow>
      total (snd (Pop q)) + 1 = total q \<and> pending q = t # pending (snd (Pop q))) \<and>
   (fst (Pop q) = None \<longrightarrow> total q = 0 \<and> snd (Pop q) = q) \<and>
   mset (pushed ops) = mset (popped emptyQueue ops) + mset (pending (final emptyQueue ops))"
proof -
  have len: "total q' = length (pending q')" for q'
    by (simp add: total_def pending_def)
  have "total (Push q t) = total q + 1"
    by (simp add: total_def Push_def)
  moreover have "total (snd (Pop q)) + 1 = total q \<and> pending q = t # pending (snd (Pop q))"
    if "fst (Pop q) = Some t"
    using pending_Pop_Some [OF that] by (simp add: len)
  moreover have "total q = 0 \<and> snd (Pop q) = q" if "fst (Pop q) = None"
    using that by (simp add: Pop_None_iff Pop_None_unchanged total_def)
  moreover have "mset (pushed ops) = mset (popped emptyQueue ops) + mset (pending (final emptyQueue ops))"
    using conservation [of emptyQueue ops] by (simp add: pending_empty)
  ultimately show ?thesis by blast
qed

theorem total_conservation_witness:
  "total (Push emptyQueue \<lparr>Body = ''a'', Priority = ''high''\<rparr>) = 1 \<and>
   total (snd (Pop (Push emptyQueue \<lparr>Body = ''a'', Priority = ''high''\<rparr>))) + 1 =
     total (Push emptyQueue \<lparr>Body = ''a'', Priority = ''high''\<rparr>) \<and>
   total emptyQueue = 0 \<and> snd (Pop emptyQueue) = emptyQueue"
  using total_conservation [of emptyQueue "\<lparr>Body = ''a'', Priority = ''high''\<rparr>" "[]"]
    total_conservation [of "Push emptyQueue \<lparr>Body = ''a'', Priority = ''high''\<rparr>"
      "\<lparr>Body = ''a'', Priority = ''high''\<rparr>" "[]"]
  by (simp add: Push_def Pop_def emptyQueue_def total_def)


section \<open>Properties of the queue manager\<close>

lemma wf_init: "wf init"
  by (simp add: wf_def init_def NewQueueManager_def)

lemma GetQueue_existing:
  "Queues (manager s) n = Some a \<Longrightarrow> GetQueue s n = (Some a, s)"
  by (simp add: GetQueue_def)

lemma GetQueue_new:
  "Queues (manager s) n = None \<Longrightarrow>
   GetQueue s n =
     (Some (length (heap s)),
      s\<lparr>manager := (manager s)\<lparr>Queues := (Queues (manager s))(n \<mapsto> length (heap s))\<rparr>,
        heap := heap s @ [emptyQueue]\<rparr>)"
  by (simp add: GetQueue_def)

lemma wf_GetQueue: "wf s \<Longrightarrow> wf (snd (GetQueue s n))"
proof (cases "Queues (manager s) n")
  case None
  assume "wf s"
  with None show ?thesis
    by (auto simp: GetQueue_new wf_def less_Suc_eq split: if_splits)
next
  case (Some a)
  assume "wf s"
  with Some show ?thesis by (simp add: GetQueue_existing)
qed

lemma GetQueue_result:
  "wf s \<Longrightarrow> \<exists>a. fst (GetQueue s n) = Some a \<and> a < length (heap (snd (GetQueue s n))) \<and>
     Queues (manager (snd (GetQueue s n))) n = Some a \<and>
     heap (snd (GetQueue s n)) ! a = resolved s n"
proof (cases "Queues (manager s) n")
  case None
  then show ?thesis by (simp add: GetQueue_new resolved_def queue_at_def)
next
  case (Some a)
  assume "wf s"
  with Some show ?thesis by (simp add: GetQueue_existing resolved_def queue_at_def wf_def)
qed

lemma queue_at_GetQueue_other:
  "wf s \<Longrightarrow> m \<noteq> n \<Longrightarrow> queue_at (snd (GetQueue s n)) m = queue_at s m"
proof (cases "Queues (manager s) n")
  case None
  assume "wf s" "m \<noteq> n"
  then have "\<And>a. Queues (manager s) m = Some a \<Longrightarrow> a < length (heap s)"
    by (simp add: wf_def)
  with None \<open>m \<noteq> n\<close> show ?thesis
    by (auto simp: GetQueue_new queue_at_def nth_append less_Suc_eq split: option.splits)
next
  case (Some a)
  then show ?thesis by (simp add: GetQueue_existing)
qed


lemma wf_Push_at: "wf s \<Longrightarrow> Push_at s p t = Inr s' \<Longrightarrow> wf s'"
  by (auto simp: Push_at_def wf_def split: option.splits if_splits)

lemma wf_Pop_at: "wf s \<Longrightarrow> Pop_at s p = Inr (r, s') \<Longrightarrow> wf s'"
  by (auto simp: Pop_at_def wf_def split: option.splits if_splits)

lemma push_effect:
  assumes "wf s" and "n \<noteq> []"
  shows "fst (pushTaskHandler s (Some t) n) =
           Written 200 (''Task added to queue '' @ [CHR 0x27] @ n @ [CHR 0x27] @
                        '' with priority: '' @ Priority (defaulted t) @ [CHR 0x0A])"
    and "wf (snd (pushTaskHandler s (Some t) n))"
    and "queue_at (snd (pushTaskHandler s (Some t) n)) n = Some (Push (resolved s n) (defaulted t))"
    and "m \<noteq> n \<Longrightarrow> queue_at (snd (pushTaskHandler s (Some t) n)) m = queue_at s m"
    and "Queues (manager (snd (pushTaskHandler s (Some t) n))) = Queues (manager (snd (GetQueue s n)))"
proof -
  obtain a where a: "fst (GetQueue s n) = Some a" "a < length (heap (snd (GetQueue s n)))"
      "Queues (manager (snd (GetQueue s n))) n = Some a"
      "heap (snd (GetQueue s n)) ! a = resolved s n"
    using GetQueue_result [OF assms(1), of n] by blast
  define s1 where "s1 = snd (GetQueue s n)"
  have g: "GetQueue s n = (Some a, s1)" using a(1) by (simp add: s1_def prod_eq_iff)
  have wf1: "wf s1" using wf_GetQueue [OF assms(1)] by (simp add: s1_def)
  define s2 where "s2 = s1\<lparr>heap := (heap s1)[a := Push (resolved s n) (defaulted t)]\<rparr>"
  have h: "pushTaskHandler s (Some t) n =
     (Written 200 (''Task added to queue '' @ [CHR 0x27] @ n @ [CHR 0x27] @
                        '' with priority: '' @ Priority (defaulted t) @ [CHR 0x0A]), s2)"
    using assms(2) a(2,4) [folded s1_def] g
    by (simp add: pushTaskHandler_def Push_at_def s2_def Let_def)
  show "fst (pushTaskHandler s (Some t) n) =
           Written 200 (''Task added to queue '' @ [CHR 0x27] @ n @ [CHR 0x27] @
                        '' with priority: '' @ Priority (defaulted t) @ [CHR 0x0A])"
    by (simp add: h)
  show "wf (snd (pushTaskHandler s (Some t) n))"
    using wf1 by (simp add: h s2_def wf_def)
  show "queue_at (snd (pushTaskHandler s (Some t) n)) n = Some (Push (resolved s n) (defaulted t))"
    using a(2,3) [folded s1_def] by (simp add: h s2_def queue_at_def)
  show "Queues (manager (snd (pushTaskHandler s (Some t) n))) = Queues (manager (snd (GetQueue s n)))"
    by (simp add: h s2_def s1_def)
  show "queue_at (snd (pushTaskHandler s (Some t) n)) m = queue_at s m" if "m \<noteq> n"
  proof -
    have "Queues (manager s1) m \<noteq> Some a"
      using wf1 a(3) [folded s1_def] that unfolding wf_def by blast
    then have "queue_at s2 m = queue_at s1 m"
      by (auto simp: s2_def queue_at_def split: option.splits)
    then show ?thesis
      using queue_at_GetQueue_other [OF assms(1) that] by (simp add: h s1_def)
  qed
qed

lemma pop_effect:
  assumes "wf s" and "n \<noteq> []"
  shows "fst (popTaskHandler s n) =
           (case fst (Pop (resolved s n)) of
              None \<Rightarrow> HttpError ''No tasks available in queue'' 404
            | Some t \<Rightarrow> Encoded t)"
    and "wf (snd (popTaskHandler s n))"
    and "queue_at (snd (popTaskHandler s n)) n = Some (snd (Pop (resolved s n)))"
    and "m \<noteq> n \<Longrightarrow> queue_at (snd (popTaskHandler s n)) m = queue_at s m"
    and "Queues (manager (snd (popTaskHandler s n))) = Queues (manager (snd (GetQueue s n)))"
proof -
  obtain a where a: "fst (GetQueue s n) = Some a" "a < length (heap (snd (GetQueue s n)))"
      "Queues (manager (snd (GetQueue s n))) n = Some a"
      "heap (snd (GetQueue s n)) ! a = resolved s n"
    using GetQueue_result [OF assms(1), of n] by blast
  define s1 where "s1 = snd (GetQueue s n)"
  have g: "GetQueue s n = (Some a, s1)" using a(1) by (simp add: s1_def prod_eq_iff)
  have wf1: "wf s1" using wf_GetQueue [OF assms(1)] by (simp add: s1_def)
  define s2 where "s2 = s1\<lparr>heap := (heap s1)[a := snd (Pop (resolved s n))]\<rparr>"
  have h: "popTaskHandler s n =
     ((case fst (Pop (resolved s n)) of
              None \<Rightarrow> HttpError ''No tasks available in queue'' 404
            | Some t \<Rightarrow> Encoded t), s2)"
    using assms(2) a(2,4) [folded s1_def] g
    by (simp add: popTaskHandler_def Pop_at_def s2_def split: option.splits)
  show "fst (popTaskHandler s n) =
           (case fst (Pop (resolved s n)) of
              None \<Rightarrow> HttpError ''No tasks available in queue'' 404
            | Some t \<Rightarrow> Encoded t)"
    by (simp add: h)
  show "wf (snd (popTaskHandler s n))"
    using wf1 by (simp add: h s2_def wf_def)
  show "queue_at (snd (popTaskHandler s n)) n = Some (snd (Pop (resolved s n)))"
    using a(2,3) [folded s1_def] by (simp add: h s2_def queue_at_def)
  show "Queues (manager (snd (popTaskHandler s n))) = Queues (manager (snd (GetQueue s n)))"
    by (simp add: h s2_def s1_def)
  show "queue_at (snd (popTaskHandler s n)) m = queue_at s m" if "m \<noteq> n"
  proof -
    have "Queues (manager s1) m \<noteq> Some a"
      using wf1 a(3) [folded s1_def] that unfolding wf_def by blast
    then have "queue_at s2 m = queue_at s1 m"
      by (auto simp: s2_def queue_at_def split: option.splits)
    then show ?thesis
      using queue_at_GetQueue_other [OF assms(1) that] by (simp add: h s1_def)
  qed
qed

lemma push_rejected:
  "pushTaskHandler s None n = (HttpError ''Invalid request body'' 400, s)"
  "pushTaskHandler s (Some t) [] = (HttpError ''Queue query param required'' 400, s)"
  "popTaskHandler s [] = (HttpError ''Queue query param required'' 400, s)"
  by (simp_all add: pushTaskHandler_def popTaskHandler_def)

lemma wf_serve: "wf s \<Longrightarrow> wf (snd (serve s r))"
proof (cases r)
  case (PushRequest d n)
  assume "wf s"
  then show ?thesis
    using push_effect(2) [of s n] PushRequest
    by (cases d; cases "n = []") (simp_all add: push_rejected)
next
  case (PopRequest n)
  assume "wf s"
  then show ?thesis
    using pop_effect(2) [of s n] PopRequest
    by (cases "n = []") (simp_all add: push_rejected)
qed

lemma wf_serve_all: "wf s \<Longrightarrow> wf (serve_all s reqs)"
  by (induction reqs arbitrary: s) (simp_all add: wf_serve)

lemma wf_reachable: "wf (serve_all init reqs)"
  by (simp add: wf_serve_all wf_init)

lemma serve_other:
  assumes "wf s" and "m \<noteq> queue_name r"
  shows "queue_at (snd (serve s r)) m = queue_at s m"
proof (cases r)
  case (PushRequest d n)
  then show ?thesis
    using push_effect(4) [of s n m] assms
    by (cases d; cases "n = []") (simp_all add: push_rejected)
next
  case (PopRequest n)
  then show ?thesis
    using pop_effect(4) [of s n m] assms
    by (cases "n = []") (simp_all add: push_rejected)
qed


lemma serve_depends:
  assumes "wf s" and "wf s'" and "queue_at s (queue_name r) = queue_at s' (queue_name r)"
  shows "fst (serve s r) = fst (serve s' r) \<and>
         queue_at (snd (serve s r)) (queue_name r) = queue_at (snd (serve s' r)) (queue_name r)"
proof -
  have res: "resolved s (queue_name r) = resolved s' (queue_name r)"
    using assms(3) by (simp add: resolved_def)
  show ?thesis
  proof (cases r)
    case (PushRequest d n)
    show ?thesis
    proof (cases "d = None \<or> n = []")
      case True
      then show ?thesis using PushRequest assms(3) by (cases d) (auto simp: push_rejected)
    next
      case False
      then obtain t where "d = Some t" "n \<noteq> []" by auto
      then show ?thesis
        using PushRequest res push_effect(1,3) [OF assms(1), of n t]
          push_effect(1,3) [OF assms(2), of n t] by simp
    qed
  next
    case (PopRequest n)
    show ?thesis
    proof (cases "n = []")
      case True
      then show ?thesis using PopRequest assms(3) by (simp add: push_rejected)
    next
      case False
      then show ?thesis
        using PopRequest res pop_effect(1,3) [OF assms(1), of n] pop_effect(1,3) [OF assms(2), of n]
        by simp
    qed
  qed
qed

text \<open>
  C7. Isolation across names. In every state the process can reach, a request on one
  name (a push or a pop, accepted or rejected) leaves the queue of every other name as it
  was; and a following request on another name gets the same response and leaves its own
  queue in the same state as if the first request had never been made. This holds from
  the initial state too, where both names are resolved for the first time.
\<close>

theorem isolation_across_names:
  assumes "queue_name r \<noteq> queue_name r'"
  shows "queue_at (snd (serve (serve_all init reqs) r)) (queue_name r') =
           queue_at (serve_all init reqs) (queue_name r') \<and>
         fst (serve (snd (serve (serve_all init reqs) r)) r') = fst (serve (serve_all init reqs) r') \<and>
         queue_at (snd (serve (snd (serve (serve_all init reqs) r)) r')) (queue_name r') =
           queue_at (snd (serve (serve_all init reqs) r')) (queue_name r')"
proof -
  define s where "s = serve_all init reqs"
  have w: "wf s" by (simp add: s_def wf_reachable)
  have w': "wf (snd (serve s r))" using w by (rule wf_serve)
  have eq: "queue_at (snd (serve s r)) (queue_name r') = queue_at s (queue_name r')"
    using serve_other [OF w, of "queue_name r'" r] assms by simp
  from serve_depends [OF w' w eq] eq show ?thesis by (simp add: s_def)
qed

theorem isolation_across_names_witness:
  "queue_at (snd (serve init (PushRequest (Some \<lparr>Body = ''a'', Priority = ''high''\<rparr>) ''alpha'')))
     ''beta'' = None \<and>
   fst (serve (snd (serve init (PushRequest (Some \<lparr>Body = ''a'', Priority = ''high''\<rparr>) ''alpha'')))
         (PopRequest ''beta'')) = HttpError ''No tasks available in queue'' 404 \<and>
   queue_at (snd (serve (snd (serve init (PushRequest (Some \<lparr>Body = ''a'', Priority = ''high''\<rparr>) ''alpha'')))
         (PopRequest ''beta''))) ''beta'' = Some emptyQueue \<and>
   queue_at (snd (serve (snd (serve init (PushRequest (Some \<lparr>Body = ''a'', Priority = ''high''\<rparr>) ''alpha'')))
         (PopRequest ''beta''))) ''alpha'' =
     Some \<lparr>High = [\<lparr>Body = ''a'', Priority = ''high''\<rparr>], Medium = [], Low = []\<rparr>"
  using isolation_across_names [of "PushRequest (Some \<lparr>Body = ''a'', Priority = ''high''\<rparr>) ''alpha''"
      "PopRequest ''beta''" "[]"]
  by (simp add: init_def NewQueueManager_def pushTaskHandler_def popTaskHandler_def GetQueue_def
      Push_at_def Pop_at_def Push_def Pop_def emptyQueue_def queue_at_def defaulted_def)


lemma GetQueue_keeps:
  "Queues (manager s) n = Some a \<Longrightarrow> Queues (manager (snd (GetQueue s m))) n = Some a"
  by (auto simp: GetQueue_def)

lemma serve_keeps:
  assumes "wf s" and "Queues (manager s) n = Some a"
  shows "Queues (manager (snd (serve s r))) n = Some a"
proof (cases r)
  case (PushRequest d m)
  then show ?thesis
    using push_effect(5) [OF assms(1), of m] assms(2) GetQueue_keeps [OF assms(2), of m]
    by (cases d; cases "m = []") (simp_all add: push_rejected)
next
  case (PopRequest m)
  then show ?thesis
    using pop_effect(5) [OF assms(1), of m] assms(2) GetQueue_keeps [OF assms(2), of m]
    by (cases "m = []") (simp_all add: push_rejected)
qed

lemma serve_all_keeps:
  "wf s \<Longrightarrow> Queues (manager s) n = Some a \<Longrightarrow> Queues (manager (serve_all s reqs)) n = Some a"
  by (induction reqs arbitrary: s) (simp_all add: wf_serve serve_keeps)

lemma resolve_times_existing:
  "Queues (manager s) n = Some a \<Longrightarrow> resolve_times k n s = s"
  by (induction k) (simp_all add: GetQueue_existing)

text \<open>
  C4. In every state the process can reach, \<open>GetQueue\<close> returns a non-nil pointer, the
  one the map holds for the name afterwards. When the name was present it is the pointer
  already stored and nothing changes; when it was absent a new empty queue is allocated,
  at an address no name held, and stored. Resolving the name again, any number of times,
  returns the same pointer and changes nothing, and so does resolving it after any later
  requests: a name keeps its one instance for good.
\<close>

theorem GetQueue_one_instance:
  assumes "s = serve_all init reqs" and "GetQueue s name = (p, s')"
  shows "p \<noteq> None \<and> p = Queues (manager s') name \<and>
         (Queues (manager s) name \<noteq> None \<longrightarrow> p = Queues (manager s) name \<and> s' = s) \<and>
         (Queues (manager s) name = None \<longrightarrow>
            queue_at s' name = Some emptyQueue \<and> heap s' = heap s @ [emptyQueue] \<and>
            (\<forall>other. Queues (manager s) other \<noteq> p)) \<and>
         GetQueue s' name = (p, s') \<and>
         resolve_times k name s' = s' \<and>
         fst (GetQueue (serve_all s' later) name) = p"
proof -
  have w: "wf s" by (simp add: assms(1) wf_reachable)
  have w': "wf s'" using wf_GetQueue [OF w, of name] assms(2) by simp
  obtain a where a: "p = Some a" "a < length (heap s')" "Queues (manager s') name = Some a"
    using GetQueue_result [OF w, of name] assms(2) by auto
  have old: "p = Queues (manager s) name \<and> s' = s" if "Queues (manager s) name \<noteq> None"
    using that assms(2) by (auto simp: GetQueue_existing)
  have new: "queue_at s' name = Some emptyQueue \<and> heap s' = heap s @ [emptyQueue] \<and>
      (\<forall>other. Queues (manager s) other \<noteq> p)" if n: "Queues (manager s) name = None"
  proof -
    have "s' = s\<lparr>manager := (manager s)\<lparr>Queues := (Queues (manager s))(name \<mapsto> length (heap s))\<rparr>,
        heap := heap s @ [emptyQueue]\<rparr>" and "p = Some (length (heap s))"
      using assms(2) GetQueue_new [OF n] by auto
    moreover have "Queues (manager s) other \<noteq> Some (length (heap s))" for other
      using w unfolding wf_def by (metis less_irrefl)
    ultimately show ?thesis by (simp add: queue_at_def)
  qed
  have again: "GetQueue s' name = (p, s')"
    using a by (simp add: GetQueue_existing)
  have "Queues (manager (serve_all s' later)) name = Some a"
    using serve_all_keeps [OF w' a(3)] .
  then have "fst (GetQueue (serve_all s' later) name) = p"
    using a(1) by (simp add: GetQueue_existing)
  with a old new again resolve_times_existing [OF a(3), of k] show ?thesis by simp
qed

theorem GetQueue_one_instance_witness:
  "GetQueue init ''q'' =
     (Some 0, \<lparr>manager = \<lparr>Queues = [''q'' \<mapsto> 0]\<rparr>, heap = [emptyQueue]\<rparr>) \<and>
   GetQueue \<lparr>manager = \<lparr>Queues = [''q'' \<mapsto> 0]\<rparr>, heap = [emptyQueue]\<rparr> ''q'' =
     (Some 0, \<lparr>manager = \<lparr>Queues = [''q'' \<mapsto> 0]\<rparr>, heap = [emptyQueue]\<rparr>) \<and>
   resolve_times 3 ''q'' \<lparr>manager = \<lparr>Queues = [''q'' \<mapsto> 0]\<rparr>, heap = [emptyQueue]\<rparr> =
     \<lparr>manager = \<lparr>Queues = [''q'' \<mapsto> 0]\<rparr>, heap = [emptyQueue]\<rparr> \<and>
   fst (GetQueue (serve_all \<lparr>manager = \<lparr>Queues = [''q'' \<mapsto> 0]\<rparr>, heap = [emptyQueue]\<rparr>
          [PushRequest (Some \<lparr>Body = ''a'', Priority = ''high''\<rparr>) ''r'', PopRequest ''q'']) ''q'') =
     Some 0"
proof -
  have g: "GetQueue init ''q'' =
     (Some 0, \<lparr>manager = \<lparr>Queues = [''q'' \<mapsto> 0]\<rparr>, heap = [emptyQueue]\<rparr>)"
    by (simp add: GetQueue_def init_def NewQueueManager_def)
  have i: "init = serve_all init []" by simp
  from GetQueue_one_instance [OF i g, of 3
      "[PushRequest (Some \<lparr>Body = ''a'', Priority = ''high''\<rparr>) ''r'', PopRequest ''q'']"] g
  show ?thesis by simp
qed

lemma tier_inv_final: "tier_inv q \<Longrightarrow> tier_inv (final q ops)"
  by (induction q ops rule: final.induct) (simp_all add: tier_inv_Push tier_inv_Pop)

lemma resolved_init: "resolved init name = emptyQueue"
  by (simp add: resolved_def queue_at_def init_def NewQueueManager_def)

lemma serve_step:
  assumes "wf s"
  shows "resolved (snd (serve s r)) name = final (resolved s name) (ops_of name [r]) \<and>
         encoded_for name s [r] = popped (resolved s name) (ops_of name [r])"
proof (cases r)
  case (PushRequest d n)
  show ?thesis
  proof (cases d)
    case None
    then show ?thesis using PushRequest by (simp add: push_rejected)
  next
    case (Some t)
    show ?thesis
    proof (cases "n = []")
      case True
      then show ?thesis using PushRequest Some by (simp add: push_rejected)
    next
      case False
      show ?thesis
      proof (cases "n = name")
        case True
        then show ?thesis
          using PushRequest Some False push_effect(1,3) [OF assms False, of t]
          by (simp add: resolved_def)
      next
        case ne: False
        then have "name \<noteq> n" by simp
        then show ?thesis
          using PushRequest Some False push_effect(1) [OF assms False, of t]
            push_effect(4) [OF assms False, of name t]
          by (simp add: resolved_def)
      qed
    qed
  qed
next
  case (PopRequest n)
  show ?thesis
  proof (cases "n = []")
    case True
    then show ?thesis using PopRequest by (simp add: push_rejected)
  next
    case False
    show ?thesis
    proof (cases "n = name")
      case True
      then show ?thesis
        using PopRequest False pop_effect(1,3) [OF assms False]
        by (simp add: resolved_def split: option.splits)
    next
      case ne: False
      then have "name \<noteq> n" by simp
      then show ?thesis
        using PopRequest False pop_effect(4) [OF assms False, of name]
        by (simp add: resolved_def split: Response.splits)
    qed
  qed
qed

lemma final_append: "final q (xs @ ys) = final (final q xs) ys"
  by (induction q xs rule: final.induct) simp_all

lemma popped_append: "popped q (xs @ ys) = popped q xs @ popped (final q xs) ys"
  by (induction q xs rule: popped.induct) (simp_all split: option.splits)

lemma ops_of_Cons: "ops_of name (r # rs) = ops_of name [r] @ ops_of name rs"
proof (cases r)
  case (PushRequest d n)
  then show ?thesis by (cases d) auto
next
  case (PopRequest n)
  then show ?thesis by auto
qed

lemma serve_refines:
  "wf s \<Longrightarrow>
   resolved (serve_all s reqs) name = final (resolved s name) (ops_of name reqs) \<and>
   encoded_for name s reqs = popped (resolved s name) (ops_of name reqs)"
proof (induction reqs arbitrary: s)
  case Nil
  then show ?case by simp
next
  case (Cons r rs)
  from serve_step [OF Cons.prems, of r name]
  have st: "resolved (snd (serve s r)) name = final (resolved s name) (ops_of name [r])"
    and en: "encoded_for name s [r] = popped (resolved s name) (ops_of name [r])" by simp_all
  from Cons.IH [OF wf_serve [OF Cons.prems], of r]
  have ih: "resolved (serve_all (snd (serve s r)) rs) name =
        final (resolved (snd (serve s r)) name) (ops_of name rs)"
    "encoded_for name (snd (serve s r)) rs = popped (resolved (snd (serve s r)) name) (ops_of name rs)"
    by simp_all
  have e: "encoded_for name s (r # rs) = encoded_for name s [r] @ encoded_for name (snd (serve s r)) rs"
    by simp
  show ?case
    unfolding e ops_of_Cons [of name r rs] final_append popped_append
    using st en ih by simp
qed

lemma tier_inv_reachable: "tier_inv (resolved (serve_all init reqs) name)"
  using serve_refines [OF wf_init, of reqs name]
  by (simp add: resolved_init tier_inv_final tier_inv_empty)



text \<open>
  C3, as the code has it. A task whose priority string is empty or not one of
  \<^verbatim>\<open>"high"\<close>, \<^verbatim>\<open>"medium"\<close>, \<^verbatim>\<open>"low"\<close> is appended to the low tier by \<open>Push\<close>, which cannot
  reject it, and it is returned with the priority string it was pushed with: after any
  earlier calls and whatever calls follow, the tasks popped from the low tier and those
  still waiting there are, in order, the tasks that waited before it, the task itself
  unchanged, and the low-tier tasks pushed after it. The push handler accepts the task
  with status 200 and appends it to the low tier of the named queue; before that it
  replaces an empty priority by \<^verbatim>\<open>"low"\<close> and keeps every other string, and whatever
  requests follow, the pop requests for that name send the stored task back unchanged, in
  its turn. So the task comes back with priority \<^verbatim>\<open>"low"\<close> only when its priority was
  absent and it went through the handler.
\<close>

theorem unrecognized_priority_kept:
  assumes "Priority t \<noteq> ''high''" and "Priority t \<noteq> ''medium''" and "Priority t \<noteq> ''low''"
    and "name \<noteq> []" and "s = serve_all init reqs"
  shows "Push q t = q\<lparr>Low := Low q @ [t]\<rparr> \<and>
         Pop (Push emptyQueue t) = (Some t, emptyQueue) \<and>
         Low (final emptyQueue before) @ t # filter (\<lambda>u. tier_of u = LowTier) (pushed after) =
           filter (\<lambda>u. tier_of u = LowTier) (popped (Push (final emptyQueue before) t) after) @
           Low (final (Push (final emptyQueue before) t) after) \<and>
         fst (pushTaskHandler s (Some t) name) =
           Written 200 (''Task added to queue '' @ [CHR 0x27] @ name @ [CHR 0x27] @
                        '' with priority: '' @ Priority (defaulted t) @ [CHR 0x0A]) \<and>
         queue_at (snd (pushTaskHandler s (Some t) name)) name =
           Some ((resolved s name)\<lparr>Low := Low (resolved s name) @ [defaulted t]\<rparr>) \<and>
         Body (defaulted t) = Body t \<and>
         Priority (defaulted t) = (if Priority t = [] then ''low'' else Priority t) \<and>
         (pending (resolved s name) = [] \<longrightarrow>
            fst (popTaskHandler (snd (pushTaskHandler s (Some t) name)) name) = Encoded (defaulted t)) \<and>
         Low (resolved s name) @ defaulted t #
             filter (\<lambda>u. tier_of u = LowTier) (pushed (ops_of name later)) =
           filter (\<lambda>u. tier_of u = LowTier)
             (encoded_for name (snd (pushTaskHandler s (Some t) name)) later) @
           Low (resolved (serve_all (snd (pushTaskHandler s (Some t) name)) later) name)"
proof -
  have w: "wf s" by (simp add: assms(5) wf_reachable)
  define s1 where "s1 = snd (pushTaskHandler s (Some t) name)"
  have dp: "Priority (defaulted t) \<noteq> ''high''" "Priority (defaulted t) \<noteq> ''medium''"
    using assms(1,2) by (simp_all add: defaulted_def)
  have p: "Push q' (defaulted t) = q'\<lparr>Low := Low q' @ [defaulted t]\<rparr>" for q'
    using dp by (simp add: Push_def)
  have p0: "Push q' t = q'\<lparr>Low := Low q' @ [t]\<rparr>" for q'
    using assms(1,2) by (simp add: Push_def)
  have w1: "wf s1" using push_effect(2) [OF w assms(4), of t] by (simp add: s1_def)
  have q1: "queue_at s1 name = Some ((resolved s name)\<lparr>Low := Low (resolved s name) @ [defaulted t]\<rparr>)"
    using push_effect(3) [OF w assms(4), of t] by (simp add: s1_def p)
  have r1: "resolved s1 name = (resolved s name)\<lparr>Low := Low (resolved s name) @ [defaulted t]\<rparr>"
    using q1 by (simp add: resolved_def)
  have front: "fst (popTaskHandler s1 name) = Encoded (defaulted t)" if "pending (resolved s name) = []"
  proof -
    have "resolved s1 name = (resolved s name)\<lparr>Low := [defaulted t]\<rparr>"
      using r1 that by (simp add: pending_def)
    moreover have "High (resolved s name) = []" "Medium (resolved s name) = []"
      using that by (simp_all add: pending_def)
    ultimately show ?thesis
      using pop_effect(1) [OF w1 assms(4)] by (simp add: Pop_def)
  qed
  have direct: "Low (final emptyQueue before) @ t # filter (\<lambda>u. tier_of u = LowTier) (pushed after) =
           filter (\<lambda>u. tier_of u = LowTier) (popped (Push (final emptyQueue before) t) after) @
           Low (final (Push (final emptyQueue before) t) after)"
  proof -
    have "tier_inv (Push (final emptyQueue before) t)"
      by (simp add: tier_inv_Push tier_inv_final tier_inv_empty)
    from fifo_from [OF this, of LowTier after] show ?thesis by (simp add: p0)
  qed
  have later: "Low (resolved s name) @ defaulted t #
             filter (\<lambda>u. tier_of u = LowTier) (pushed (ops_of name later)) =
           filter (\<lambda>u. tier_of u = LowTier) (encoded_for name s1 later) @
           Low (resolved (serve_all s1 later) name)"
  proof -
    have "tier_inv (resolved s name)"
      by (simp add: assms(5) tier_inv_reachable)
    then have "tier_inv (resolved s1 name)"
      using tier_inv_Push [of "resolved s name" "defaulted t"] by (simp add: r1 p)
    from fifo_from [OF this, of LowTier "ops_of name later"] serve_refines [OF w1, of later name]
    show ?thesis by (simp add: r1)
  qed
  have "Pop (Push emptyQueue t) = (Some t, emptyQueue)"
    by (simp add: Push_def Pop_def emptyQueue_def)
  with front direct later p0 [of q] show ?thesis
    using push_effect(1) [OF w assms(4), of t] q1 unfolding s1_def
    by (simp add: defaulted_def)
qed

theorem unrecognized_priority_kept_witness:
  "fst (popTaskHandler (snd (pushTaskHandler init (Some \<lparr>Body = ''x'', Priority = []\<rparr>) ''q2'')) ''q2'') =
     Encoded \<lparr>Body = ''x'', Priority = ''low''\<rparr> \<and>
   queue_at (snd (pushTaskHandler init (Some \<lparr>Body = ''x'', Priority = []\<rparr>) ''q2'')) ''q2'' =
     Some \<lparr>High = [], Medium = [], Low = [\<lparr>Body = ''x'', Priority = ''low''\<rparr>]\<rparr> \<and>
   fst (popTaskHandler (snd (pushTaskHandler init (Some \<lparr>Body = ''x'', Priority = ''urgent''\<rparr>) ''q2''))
     ''q2'') = Encoded \<lparr>Body = ''x'', Priority = ''urgent''\<rparr> \<and>
   Push emptyQueue \<lparr>Body = ''x'', Priority = ''urgent''\<rparr> =
     \<lparr>High = [], Medium = [], Low = [\<lparr>Body = ''x'', Priority = ''urgent''\<rparr>]\<rparr> \<and>
   popped (Push (final emptyQueue [OpPush \<lparr>Body = ''w'', Priority = ''whenever''\<rparr>])
             \<lparr>Body = ''x'', Priority = ''urgent''\<rparr>)
     [OpPush \<lparr>Body = ''y'', Priority = ''low''\<rparr>, OpPop, OpPop, OpPop] =
     [\<lparr>Body = ''w'', Priority = ''whenever''\<rparr>, \<lparr>Body = ''x'', Priority = ''urgent''\<rparr>,
      \<lparr>Body = ''y'', Priority = ''low''\<rparr>] \<and>
   encoded_for ''q2'' (snd (pushTaskHandler init (Some \<lparr>Body = ''x'', Priority = ''urgent''\<rparr>) ''q2''))
     [PushRequest (Some \<lparr>Body = ''y'', Priority = ''low''\<rparr>) ''q2'', PopRequest ''q2'', PopRequest ''q2''] =
     [\<lparr>Body = ''x'', Priority = ''urgent''\<rparr>, \<lparr>Body = ''y'', Priority = ''low''\<rparr>]"
proof -
  have i: "init = serve_all init []" by simp
  show ?thesis
    using unrecognized_priority_kept [of "\<lparr>Body = ''x'', Priority = []\<rparr>" "''q2''" init "[]" emptyQueue
        "[]" "[]" "[]", OF _ _ _ _ i]
      unrecognized_priority_kept [of "\<lparr>Body = ''x'', Priority = ''urgent''\<rparr>" "''q2''" init "[]" emptyQueue
        "[OpPush \<lparr>Body = ''w'', Priority = ''whenever''\<rparr>]"
        "[OpPush \<lparr>Body = ''y'', Priority = ''low''\<rparr>, OpPop, OpPop, OpPop]"
        "[PushRequest (Some \<lparr>Body = ''y'', Priority = ''low''\<rparr>) ''q2'', PopRequest ''q2'', PopRequest ''q2'']",
        OF _ _ _ _ i]
    by (simp add: resolved_def queue_at_def defaulted_def emptyQueue_def pending_def init_def
        NewQueueManager_def
        pushTaskHandler_def popTaskHandler_def GetQueue_def Push_at_def Pop_at_def Push_def Pop_def
        tier_of_def)
qed

text \<open>
  The claim C3 as written fails: a task pushed with priority \<^verbatim>\<open>"urgent"\<close> is popped with
  priority \<^verbatim>\<open>"urgent"\<close>, not \<^verbatim>\<open>"low"\<close>, through the handlers as on the queue itself.
\<close>

theorem unrecognized_priority_counterexample:
  "fst (popTaskHandler (snd (pushTaskHandler init (Some \<lparr>Body = ''x'', Priority = ''urgent''\<rparr>) ''q''))
     ''q'') = Encoded \<lparr>Body = ''x'', Priority = ''urgent''\<rparr> \<and>
   fst (Pop (Push emptyQueue \<lparr>Body = ''x'', Priority = ''urgent''\<rparr>)) =
     Some \<lparr>Body = ''x'', Priority = ''urgent''\<rparr> \<and>
   Priority \<lparr>Body = ''x'', Priority = ''urgent''\<rparr> \<noteq> ''low''"
  by (simp add: init_def NewQueueManager_def pushTaskHandler_def popTaskHandler_def GetQueue_def
      Push_at_def Pop_at_def Push_def Pop_def emptyQueue_def defaulted_def)


section \<open>Properties of the manager's lock\<close>

lemma filter_update_length:
  "i < length xs \<Longrightarrow>
   length (filter P (xs[i := y])) + (if P (xs ! i) then 1 else 0) =
   length (filter P xs) + (if P y then 1 else 0)"
proof (induction xs arbitrary: i)
  case Nil
  then show ?case by simp
next
  case (Cons x xs)
  then show ?case by (cases i) auto
qed

lemma holders_pos: "i < length xs \<Longrightarrow> is_Holding (xs ! i) \<Longrightarrow> 0 < length (filter is_Holding xs)"
  by (metis filter_empty_conv length_greater_0_conv nth_mem)

lemma step_inv:
  assumes "step i sys = Some sys'"
    and "(mu sys = Unlocked \<and> holders sys = 0) \<or> (mu sys = WriteLocked \<and> holders sys = 1)"
  shows "(mu sys' = Unlocked \<and> holders sys' = 0) \<or> (mu sys' = WriteLocked \<and> holders sys' = 1)"
proof -
  have i: "i < length (calls sys)" using assms(1) by (simp add: step_def split: if_splits)
  show ?thesis
  proof (cases "calls sys ! i")
    case (Entering name)
    with assms(1) i have m: "mu sys = Unlocked"
        and s': "sys' = sys\<lparr>mu := WriteLocked, calls := (calls sys)[i := Holding name]\<rparr>"
      by (auto simp: step_def Lock_def split: if_splits)
    from filter_update_length [OF i, of is_Holding "Holding name"] Entering assms(2) m
    show ?thesis by (simp add: s' holders_def)
  next
    case (Holding name)
    with assms(1) i have m: "mu sys = WriteLocked"
        and s': "sys' = sys\<lparr>mu := Unlocked, shared := snd (GetQueue (shared sys) name),
                            calls := (calls sys)[i := Returned (fst (GetQueue (shared sys) name))]\<rparr>"
      by (auto simp: step_def Unlock_def split: if_splits)
    from filter_update_length [OF i, of is_Holding "Returned (fst (GetQueue (shared sys) name))"]
      Holding assms(2) m
    show ?thesis by (simp add: s' holders_def)
  next
    case (Returned p)
    with assms(1) i show ?thesis by (simp add: step_def)
  qed
qed

lemma steps_inv:
  "steps sched sys = Some sys' \<Longrightarrow>
   (mu sys = Unlocked \<and> holders sys = 0) \<or> (mu sys = WriteLocked \<and> holders sys = 1) \<Longrightarrow>
   (mu sys' = Unlocked \<and> holders sys' = 0) \<or> (mu sys' = WriteLocked \<and> holders sys' = 1)"
proof (induction sched arbitrary: sys)
  case Nil
  then show ?case by simp
next
  case (Cons i sched)
  from Cons.prems(1) obtain sys1 where s1: "step i sys = Some sys1" "steps sched sys1 = Some sys'"
    by (auto split: option.splits)
  from Cons.IH [OF s1(2) step_inv [OF s1(1) Cons.prems(2)]] show ?case .
qed

lemma no_holders: "list_all is_Entering xs \<Longrightarrow> length (filter is_Holding xs) = 0"
proof (induction xs)
  case Nil
  then show ?case by simp
next
  case (Cons x xs)
  then show ?case by (cases x) simp_all
qed

text \<open>
  What the lock of \<open>GetQueue\<close> does. Every call, for a name that exists as for a new one,
  holds the manager's mutex in write mode from its \<^verbatim>\<open>Lock\<close> to its return. Start any
  number of calls with the mutex free and run any schedule: whenever one call is inside,
  the mutex is write-locked, that call is the only one inside, and every call about to
  enter is blocked, whatever its name.
\<close>

lemma GetQueue_exclusive:
  assumes "mu sys0 = Unlocked" and "list_all is_Entering (calls sys0)"
    and "steps sched sys0 = Some sys"
    and "i < length (calls sys)" and "calls sys ! i = Holding name"
    and "j < length (calls sys)" and "calls sys ! j = Entering name'"
  shows "mu sys = WriteLocked \<and> holders sys = 1 \<and> step j sys = None"
proof -
  have "(mu sys0 = Unlocked \<and> holders sys0 = 0)"
    using assms(1,2) by (simp add: holders_def no_holders)
  then have inv: "(mu sys = Unlocked \<and> holders sys = 0) \<or> (mu sys = WriteLocked \<and> holders sys = 1)"
    using steps_inv [OF assms(3)] by simp
  have "0 < holders sys"
    using holders_pos [OF assms(4)] assms(5) by (simp add: holders_def)
  with inv have "mu sys = WriteLocked" "holders sys = 1" by auto
  then show ?thesis using assms(6,7) by (simp add: step_def Lock_def)
qed

lemma GetQueue_exclusive_example:
  "steps [0] \<lparr>mu = Unlocked,
              shared = \<lparr>manager = \<lparr>Queues = [''a'' \<mapsto> 0, ''b'' \<mapsto> 1]\<rparr>, heap = [emptyQueue, emptyQueue]\<rparr>,
              calls = [Entering ''a'', Entering ''b'']\<rparr> =
     Some \<lparr>mu = WriteLocked,
           shared = \<lparr>manager = \<lparr>Queues = [''a'' \<mapsto> 0, ''b'' \<mapsto> 1]\<rparr>, heap = [emptyQueue, emptyQueue]\<rparr>,
           calls = [Holding ''a'', Entering ''b'']\<rparr> \<and>
   holders \<lparr>mu = WriteLocked,
           shared = \<lparr>manager = \<lparr>Queues = [''a'' \<mapsto> 0, ''b'' \<mapsto> 1]\<rparr>, heap = [emptyQueue, emptyQueue]\<rparr>,
           calls = [Holding ''a'', Entering ''b'']\<rparr> = 1 \<and>
   step 1 \<lparr>mu = WriteLocked,
           shared = \<lparr>manager = \<lparr>Queues = [''a'' \<mapsto> 0, ''b'' \<mapsto> 1]\<rparr>, heap = [emptyQueue, emptyQueue]\<rparr>,
           calls = [Holding ''a'', Entering ''b'']\<rparr> = None"
proof -
  have s: "steps [0] \<lparr>mu = Unlocked,
              shared = \<lparr>manager = \<lparr>Queues = [''a'' \<mapsto> 0, ''b'' \<mapsto> 1]\<rparr>, heap = [emptyQueue, emptyQueue]\<rparr>,
              calls = [Entering ''a'', Entering ''b'']\<rparr> =
     Some \<lparr>mu = WriteLocked,
           shared = \<lparr>manager = \<lparr>Queues = [''a'' \<mapsto> 0, ''b'' \<mapsto> 1]\<rparr>, heap = [emptyQueue, emptyQueue]\<rparr>,
           calls = [Holding ''a'', Entering ''b'']\<rparr>"
    by (simp add: step_def Lock_def)
  from GetQueue_exclusive [OF _ _ s, of 0 "''a''" 1 "''b''"] s show ?thesis by simp
qed

text \<open>
  C8 at two existing names. The mutex is declared a \<^verbatim>\<open>sync.RWMutex\<close> (line 66), which
  offers shared access to readers, but \<open>GetQueue\<close> takes it with \<^verbatim>\<open>Lock\<close> on every path.
  With the distinct names \<^verbatim>\<open>"a"\<close> and \<^verbatim>\<open>"b"\<close> both present, resolving either creates
  nothing and changes nothing; yet the call for \<^verbatim>\<open>"a"\<close> takes the mutex in write mode,
  and the call for \<^verbatim>\<open>"b"\<close> cannot enter until the first has returned: the two lookups
  are serialized, where the claim has them proceed side by side under shared access.
\<close>

theorem GetQueue_existing_names_serialized:
  "GetQueue \<lparr>manager = \<lparr>Queues = [''a'' \<mapsto> 0, ''b'' \<mapsto> 1]\<rparr>, heap = [emptyQueue, emptyQueue]\<rparr> ''a'' =
     (Some 0, \<lparr>manager = \<lparr>Queues = [''a'' \<mapsto> 0, ''b'' \<mapsto> 1]\<rparr>, heap = [emptyQueue, emptyQueue]\<rparr>) \<and>
   GetQueue \<lparr>manager = \<lparr>Queues = [''a'' \<mapsto> 0, ''b'' \<mapsto> 1]\<rparr>, heap = [emptyQueue, emptyQueue]\<rparr> ''b'' =
     (Some 1, \<lparr>manager = \<lparr>Queues = [''a'' \<mapsto> 0, ''b'' \<mapsto> 1]\<rparr>, heap = [emptyQueue, emptyQueue]\<rparr>) \<and>
   step 0 \<lparr>mu = Unlocked,
           shared = \<lparr>manager = \<lparr>Queues = [''a'' \<mapsto> 0, ''b'' \<mapsto> 1]\<rparr>, heap = [emptyQueue, emptyQueue]\<rparr>,
           calls = [Entering ''a'', Entering ''b'']\<rparr> =
     Some \<lparr>mu = WriteLocked,
           shared = \<lparr>manager = \<lparr>Queues = [''a'' \<mapsto> 0, ''b'' \<mapsto> 1]\<rparr>, heap = [emptyQueue, emptyQueue]\<rparr>,
           calls = [Holding ''a'', Entering ''b'']\<rparr> \<and>
   step 1 \<lparr>mu = WriteLocked,
           shared = \<lparr>manager = \<lparr>Queues = [''a'' \<mapsto> 0, ''b'' \<mapsto> 1]\<rparr>, heap = [emptyQueue, emptyQueue]\<rparr>,
           calls = [Holding ''a'', Entering ''b'']\<rparr> = None"
  by (simp add: step_def Lock_def GetQueue_def)

end
